theory Spec2Isabelle
  imports Main "HOL-Library.Word"
begin

section \<open>Data model of the gate node (receiver.ino)\<close>

text \<open>
  C strings are modelled as \<open>string\<close>: the characters before the terminating NUL.
  On such values \<open>strcmp a b \<noteq> 0\<close> is \<open>a \<noteq> b\<close> and \<open>strcpy\<close> copies the value;
  the fixed buffer sizes (\<open>uid[10]\<close>, \<open>time[20]\<close>) are the same on both sides of every
  copy in the program, so a value that fits its source buffer fits its destination.
\<close>

text \<open>\<open>enum DoorState { OPEN, CLOSE }\<close>: the enumerators are 0 and 1 of an integer type,
  and a variable of that type can hold other values, which the default branch of the
  controller handles.\<close>

type_synonym DoorState = "32 word"

definition OPEN :: DoorState where
  "OPEN = 0"

definition CLOSE :: DoorState where
  "CLOSE = 1"

text \<open>\<open>digitalRead\<close> returns an \<open>int\<close>; \<open>LOW\<close> is 0 (the button is wired with a pull-up,
  so a pressed button reads \<open>LOW\<close>).\<close>

definition LOW :: int where
  "LOW = 0"

definition HIGH :: int where
  "HIGH = 1"

record AccessData =
  uid :: string
  time :: string

text \<open>The fields of \<open>struct Employee\<close> other than the \<open>next\<close> pointer. The registry is
  modelled twice: as the list of the records of the nodes reached from \<open>head\<close>, first
  node first, where the \<open>next\<close> pointer is the position in the list; and as nodes in a
  memory, where the pointer is stored beside these fields.\<close>

record Employee =
  uid :: string
  entryTime :: string
  exitTime :: string
  isEntering :: bool

type_synonym c_int = "32 word"

text \<open>What the tasks do to the outside world, in the order they do it.\<close>

datatype effect =
    Serial_print string
  | Serial_print_int "c_int option"
  | Serial_println string
  | Serial_flush
  | Serial0_println string
  | lcd_clear
  | lcd_setCursor nat nat
  | lcd_print string
  | Servo_write nat
  | vTaskDelay nat

text \<open>The global variables: \<open>head\<close>, \<open>Remote_Door\<close>, \<open>DoorQueue\<close>, and the trace of
  effects performed so far.\<close>

record globals =
  head :: "Employee list"
  Remote_Door :: bool
  DoorQueue :: "DoorState list"
  out :: "effect list"

definition emit :: "globals \<Rightarrow> effect list \<Rightarrow> globals" where
  "emit g es = g\<lparr>out := out g @ es\<rparr>"

definition globals_init :: globals where
  "globals_init = \<lparr>head = [], Remote_Door = False, DoorQueue = [], out = []\<rparr>"

section \<open>Library functions the program calls\<close>

definition isspace :: "char \<Rightarrow> bool" where
  "isspace c = (let n = (of_char c :: nat) in n = 32 \<or> (9 \<le> n \<and> n \<le> 13))"

definition isdigit :: "char \<Rightarrow> bool" where
  "isdigit c = (let n = (of_char c :: nat) in 48 \<le> n \<and> n \<le> 57)"

definition tolower :: "char \<Rightarrow> char" where
  "tolower c = (let n = (of_char c :: nat) in if 65 \<le> n \<and> n \<le> 90 then char_of (n + 32) else c)"

text \<open>\<open>String::trim\<close>: drops the white space at both ends.\<close>

definition trim :: "string \<Rightarrow> string" where
  "trim s = rev (dropWhile isspace (rev (dropWhile isspace s)))"

text \<open>\<open>String::equalsIgnoreCase\<close>: same length, and equal character by character after
  \<open>tolower\<close>.\<close>

definition equalsIgnoreCase :: "string \<Rightarrow> string \<Rightarrow> bool" where
  "equalsIgnoreCase a b = (length a = length b \<and> map tolower a = map tolower b)"

text \<open>The \<open>%d\<close> directive of \<open>sscanf\<close>: skip white space, read an optional sign and at
  least one decimal digit. The result is the value read and the rest of the input, or
  \<open>None\<close> on a matching failure.\<close>

fun scan_digits :: "int \<Rightarrow> string \<Rightarrow> int \<times> string" where
  "scan_digits acc [] = (acc, [])"
| "scan_digits acc (c # cs) =
     (if isdigit c then scan_digits (acc * 10 + (of_char c - 48)) cs else (acc, c # cs))"

definition scan_unsigned :: "string \<Rightarrow> (int \<times> string) option" where
  "scan_unsigned s =
     (case s of
        [] \<Rightarrow> None
      | c # cs \<Rightarrow> if isdigit c then Some (scan_digits 0 s) else None)"

definition scan_d :: "string \<Rightarrow> (int \<times> string) option" where
  "scan_d s =
     (case dropWhile isspace s of
        [] \<Rightarrow> None
      | c # cs \<Rightarrow>
          if c = CHR ''-'' then map_option (\<lambda>(v, r). (- v, r)) (scan_unsigned cs)
          else if c = CHR ''+'' then scan_unsigned cs
          else scan_unsigned (c # cs))"

text \<open>\<open>sscanf(s, "%d:%d:%d", &h, &m, &s)\<close>: the values converted before the first
  matching failure, in order. A colon of the format matches exactly one colon of the
  input.\<close>

definition sscanf_hms :: "string \<Rightarrow> int list" where
  "sscanf_hms str =
     (case scan_d str of
        None \<Rightarrow> []
      | Some (h, r1) \<Rightarrow>
          (case r1 of
             c1 # r2 \<Rightarrow>
               if c1 \<noteq> CHR '':'' then [h]
               else (case scan_d r2 of
                  None \<Rightarrow> [h]
                | Some (m, r3) \<Rightarrow>
                    (case r3 of
                       c2 # r4 \<Rightarrow>
                         if c2 \<noteq> CHR '':'' then [h, m]
                         else (case scan_d r4 of
                            None \<Rightarrow> [h, m]
                          | Some (s, r5) \<Rightarrow> [h, m, s])
                     | [] \<Rightarrow> [h, m]))
           | [] \<Rightarrow> [h]))"

section \<open>The scanning node (sender.ino)\<close>

text \<open>The time strings the scanning node sends (sender.ino):
  \<open>sprintf(accessData.time, "%02d:%02d:%02d", now.hour(), now.minute(), now.second())\<close>,
  the three values being of type \<open>uint8_t\<close>.\<close>

function show_nat :: "nat \<Rightarrow> string" where
  "show_nat n = (if n < 10 then [char_of (48 + n)] else show_nat (n div 10) @ [char_of (48 + n mod 10)])"
  by pat_completeness auto
termination
  by (relation "measure id") auto

definition fmt_02d :: "nat \<Rightarrow> string" where
  "fmt_02d n = (if n < 10 then CHR ''0'' # show_nat n else show_nat n)"

definition sender_time :: "8 word \<Rightarrow> 8 word \<Rightarrow> 8 word \<Rightarrow> string" where
  "sender_time h m s =
     fmt_02d (unat h) @ '':'' @ fmt_02d (unat m) @ '':'' @ fmt_02d (unat s)"

declare show_nat.simps [simp del]

section \<open>The employee registry, as the list of its records\<close>

text \<open>The search loop of \<open>checkID\<close> (lines 150 to 154): \<open>temp\<close> walks the chain until it
  is \<open>NULL\<close> or points at a node with the received UID. The result is the position of
  that node, \<open>None\<close> for \<open>NULL\<close>.\<close>

fun find_uid :: "Employee list \<Rightarrow> string \<Rightarrow> nat option" where
  "find_uid [] u = None"
| "find_uid (e # es) u =
     (if Employee.uid e = u then Some 0 else map_option Suc (find_uid es u))"

text \<open>The node \<open>temp\<close> points at when the search loop ends, if any.\<close>

definition find_record :: "Employee list \<Rightarrow> string \<Rightarrow> Employee option" where
  "find_record h u = map_option (\<lambda>i. h ! i) (find_uid h u)"

text \<open>\<open>addEmployee\<close>: \<open>malloc_ok\<close> says whether \<open>malloc\<close> returned a node. The function
  returns the new chain and what it printed.\<close>

definition addEmployee :: "Employee list \<Rightarrow> string \<Rightarrow> string \<Rightarrow> bool \<Rightarrow> Employee list \<times> effect list" where
  "addEmployee hd_list u t malloc_ok =
     (if \<not> malloc_ok then (hd_list, [Serial_println ''Memory allocation failed!''])
      else (\<lparr>Employee.uid = u, entryTime = t, exitTime = [], isEntering = True\<rparr> # hd_list,
            [Serial_println ''Employee added successfully.'']))"

text \<open>\<open>removeEmployee\<close>: walk to the first node with the UID, unlink it (from \<open>head\<close> when
  it is the first node, from its predecessor otherwise) and free it; nothing happens when
  no node has the UID.\<close>

fun removeEmployee :: "Employee list \<Rightarrow> string \<Rightarrow> Employee list" where
  "removeEmployee [] rfid = []"
| "removeEmployee (e # es) rfid =
     (if Employee.uid e = rfid then es else e # removeEmployee es rfid)"

text \<open>\<open>calculateTotalTime\<close>: \<open>int\<close> is 32 bits wide. A field too large for an \<open>int\<close>
  and an overflow of the arithmetic are undefined in C; the model reduces both modulo
  \<open>2 ^ 32\<close>, as the target's arithmetic does. When \<open>sscanf\<close> converts fewer than three
  fields, the function reads a variable that was never assigned: the result is \<open>None\<close>.\<close>

definition calculateTotalTime :: "string \<Rightarrow> string \<Rightarrow> c_int option" where
  "calculateTotalTime entry exit =
     (case (sscanf_hms entry, sscanf_hms exit) of
        ([h1, m1, s1], [h2, m2, s2]) \<Rightarrow>
          Some ((word_of_int h2 * 3600 + word_of_int m2 * 60 + word_of_int s2)
                - (word_of_int h1 * 3600 + word_of_int m1 * 60 + word_of_int s1))
      | _ \<Rightarrow> None)"

section \<open>The employee registry, as nodes in memory\<close>

text \<open>The functions of the registry as the program has them, on nodes linked by
  pointers. A pointer is \<open>None\<close> for \<open>NULL\<close> or the address of a node; the memory maps the
  address of every allocated node to its fields and its \<open>next\<close> pointer. Following a
  pointer to an address that is not allocated has no defined result, and neither has a
  loop that never ends (on a chain that runs into itself): both are \<open>None\<close>.\<close>

type_synonym addr = nat

type_synonym memory = "addr \<rightharpoonup> Employee \<times> addr option"

text \<open>The search loop of \<open>checkID\<close>, lines 150 to 154: the value of \<open>temp\<close> when the loop
  ends.\<close>

partial_function (option) search_loop :: "memory \<Rightarrow> addr option \<Rightarrow> string \<Rightarrow> addr option option" where
  "search_loop mem temp u =
     (case temp of
        None \<Rightarrow> Some None
      | Some a \<Rightarrow>
          (case mem a of
             None \<Rightarrow> None
           | Some (e, nx) \<Rightarrow>
               if Employee.uid e \<noteq> u then search_loop mem nx u else Some (Some a)))"

text \<open>\<open>addEmployee\<close>, with \<open>newEmployee\<close> the pointer \<open>malloc\<close> returned.\<close>

definition addEmployee_mem ::
  "memory \<times> addr option \<Rightarrow> string \<Rightarrow> string \<Rightarrow> addr option \<Rightarrow> (memory \<times> addr option) \<times> effect list" where
  "addEmployee_mem m u t newEmployee =
     (case m of (mem, hd_ptr) \<Rightarrow>
        (case newEmployee of
           None \<Rightarrow> ((mem, hd_ptr), [Serial_println ''Memory allocation failed!''])
         | Some a \<Rightarrow>
             ((mem(a \<mapsto> (\<lparr>Employee.uid = u, entryTime = t, exitTime = [], isEntering = True\<rparr>, hd_ptr)),
               Some a),
              [Serial_println ''Employee added successfully.''])))"

text \<open>The loop of \<open>removeEmployee\<close>, lines 258 to 261: the values of \<open>prev\<close> and \<open>temp\<close>
  when the loop ends.\<close>

partial_function (option) unlink_loop ::
  "memory \<Rightarrow> addr option \<Rightarrow> addr option \<Rightarrow> string \<Rightarrow> (addr option \<times> addr option) option" where
  "unlink_loop mem prev temp rfid =
     (case temp of
        None \<Rightarrow> Some (prev, None)
      | Some a \<Rightarrow>
          (case mem a of
             None \<Rightarrow> None
           | Some (e, nx) \<Rightarrow>
               if Employee.uid e \<noteq> rfid then unlink_loop mem (Some a) nx rfid
               else Some (prev, Some a)))"

text \<open>\<open>removeEmployee\<close>: nothing changes when \<open>temp\<close> is \<open>NULL\<close>; otherwise \<open>head\<close> or the
  \<open>next\<close> pointer of the node at \<open>prev\<close> is set to \<open>temp->next\<close>, and the node at \<open>temp\<close>
  is freed.\<close>

definition removeEmployee_mem :: "memory \<times> addr option \<Rightarrow> string \<Rightarrow> (memory \<times> addr option) option" where
  "removeEmployee_mem m rfid =
     (case m of (mem, hd_ptr) \<Rightarrow>
        (case unlink_loop mem None hd_ptr rfid of
           None \<Rightarrow> None
         | Some (prev, temp) \<Rightarrow>
             (case temp of
                None \<Rightarrow> Some (mem, hd_ptr)
              | Some a \<Rightarrow>
                  (case mem a of
                     None \<Rightarrow> None
                   | Some (e, nx) \<Rightarrow>
                       (case prev of
                          None \<Rightarrow> Some (mem(a := None), nx)
                        | Some p \<Rightarrow>
                            (case mem p of
                               None \<Rightarrow> None
                             | Some (pe, pnx) \<Rightarrow> Some ((mem(p \<mapsto> (pe, nx)))(a := None), hd_ptr)))))))"

text \<open>The nodes met from pointer \<open>p\<close> up to pointer \<open>q\<close>, each with its address; the chain
  from \<open>p\<close> is the path that ends at \<open>NULL\<close>. The list of the records of the chain from
  \<open>head\<close> is what the sections above call the registry.\<close>

fun path :: "memory \<Rightarrow> addr option \<Rightarrow> (addr \<times> Employee) list \<Rightarrow> addr option \<Rightarrow> bool" where
  "path mem p [] q = (p = q)"
| "path mem p ((a, e) # ns) q =
     (p = Some a \<and> (case mem a of None \<Rightarrow> False | Some (e', nx) \<Rightarrow> e' = e \<and> path mem nx ns q))"

definition chain :: "memory \<Rightarrow> addr option \<Rightarrow> (addr \<times> Employee) list \<Rightarrow> bool" where
  "chain mem p ns = path mem p ns None"

text \<open>What the loop of \<open>removeEmployee\<close> computes, and the nodes left when the first node
  with the UID is taken out.\<close>

fun unlink_at :: "addr option \<Rightarrow> (addr \<times> Employee) list \<Rightarrow> string \<Rightarrow> addr option \<times> addr option" where
  "unlink_at prev [] rfid = (prev, None)"
| "unlink_at prev ((a, e) # ns) rfid =
     (if Employee.uid e \<noteq> rfid then unlink_at (Some a) ns rfid else (prev, Some a))"

fun without :: "(addr \<times> Employee) list \<Rightarrow> string \<Rightarrow> (addr \<times> Employee) list" where
  "without [] rfid = []"
| "without ((a, e) # ns) rfid = (if Employee.uid e = rfid then ns else (a, e) # without ns rfid)"

section \<open>The identification task (\<open>checkID\<close>)\<close>

text \<open>The task is written on the list of the records of the chain. It uses the chain in
  four ways: the search loop, the assignments to the fields of the node found,
  \<open>addEmployee\<close> and \<open>removeEmployee\<close>; the section on the pointer operations shows for
  each of them that on nodes in memory it does what the list operation used here does.\<close>

text \<open>The operator console is the list of what the successive polls of the input loop
  find: \<open>None\<close> when \<open>Serial.available()\<close> is 0, \<open>Some l\<close> when \<open>readStringUntil\<close>
  returns \<open>l\<close>. The loop (lines 165 to 172, and 208 to 215) runs until a poll gives an
  input that is not empty after \<open>trim\<close>, and delays 100 ms in every iteration. It
  returns the input, the polls left and the number of iterations; \<open>None\<close> when no poll
  ever gives an input: the task waits forever.\<close>

fun wait_input :: "string option list \<Rightarrow> (string \<times> string option list \<times> nat) option" where
  "wait_input [] = None"
| "wait_input (None # ps) = map_option (\<lambda>(i, r, n). (i, r, Suc n)) (wait_input ps)"
| "wait_input (Some l # ps) =
     (let input = trim l in
      if length input = 0 then map_option (\<lambda>(i, r, n). (i, r, Suc n)) (wait_input ps)
      else Some (input, ps, 1))"

text \<open>One pass through the body of the task for a received event either completes or
  stays in an input loop forever.\<close>

datatype id_result =
    Done globals "string option list"
  | Stalled globals

fun state_of :: "id_result \<Rightarrow> globals" where
  "state_of (Done g con) = g"
| "state_of (Stalled g) = g"

text \<open>Where the pass stands when the branches of lines 156 to 231 have run up to the
  assignment \<open>Remote_Door = true\<close> (line 182 or line 192), which is the last statement of
  the two branches that have it: at that assignment, at the end of a branch without it,
  or in an input loop for ever.\<close>

datatype id_progress =
    At_assignment globals "string option list"
  | After_branch globals "string option list"
  | In_input_loop globals

text \<open>Lines 156 to 187: the UID is not in the chain.\<close>

definition checkID_unknown :: "globals \<Rightarrow> string option list \<Rightarrow> AccessData \<Rightarrow> bool \<Rightarrow> id_progress" where
  "checkID_unknown g con recvData malloc_ok =
     (let g1 = emit g [lcd_clear, lcd_setCursor 0 0, lcd_print ''Set Employee?'',
                       lcd_setCursor 0 1, lcd_print ''y/n'', Serial_flush]
      in case wait_input con of
           None \<Rightarrow> In_input_loop g1
         | Some (input, con', n) \<Rightarrow>
             (let g2 = emit g1 (replicate n (vTaskDelay 100)
                                @ [Serial_print ''Received Input: '', Serial_println input])
              in if equalsIgnoreCase input ''y'' then
                   (let (hd', es) = addEmployee (head g2) (AccessData.uid recvData)
                                                (AccessData.time recvData) malloc_ok
                    in At_assignment
                         (emit (g2\<lparr>head := hd'\<rparr>)
                               (es @ [lcd_clear, lcd_setCursor 0 0, lcd_print ''Employee Added'']))
                         con')
                 else
                   After_branch (emit g2 [lcd_clear, lcd_setCursor 0 0, lcd_print ''Denied'']) con'))"

text \<open>Lines 188 to 230: \<open>temp\<close> points at the node at position \<open>i\<close>.\<close>

definition checkID_known :: "globals \<Rightarrow> string option list \<Rightarrow> AccessData \<Rightarrow> nat \<Rightarrow> id_progress" where
  "checkID_known g con recvData i =
     (let temp = (head g ! i)\<lparr>isEntering := \<not> isEntering (head g ! i)\<rparr>
      in if isEntering temp then
           At_assignment (g\<lparr>head := (head g)[i := temp\<lparr>entryTime := AccessData.time recvData\<rparr>]\<rparr>) con
         else
           (let temp' = temp\<lparr>exitTime := AccessData.time recvData\<rparr>;
                total_time = calculateTotalTime (entryTime temp') (exitTime temp');
                g1 = emit (g\<lparr>head := (head g)[i := temp']\<rparr>)
                       [Serial_print ''Total Time Inside: '', Serial_print_int total_time,
                        Serial_println '' seconds'',
                        lcd_clear, lcd_setCursor 0 0, lcd_print ''Remove Employee?'',
                        lcd_setCursor 0 1, lcd_print ''y/n'', Serial_flush]
            in case wait_input con of
                 None \<Rightarrow> In_input_loop g1
               | Some (input, con', n) \<Rightarrow>
                   (let g2 = emit g1 (replicate n (vTaskDelay 100)
                                      @ [Serial_print ''Received Input: '', Serial_println input])
                    in if equalsIgnoreCase input ''y'' then
                         After_branch
                           (emit (g2\<lparr>head := removeEmployee (head g2) (AccessData.uid recvData)\<rparr>)
                                 [lcd_clear, lcd_setCursor 0 0, lcd_print ''Employee Removed''])
                           con'
                       else
                         After_branch
                           (emit g2 [lcd_clear, lcd_setCursor 0 0, lcd_print ''Maintained'']) con')))"

text \<open>Lines 150 to 231, up to the assignment to \<open>Remote_Door\<close>.\<close>

definition checkID_branches :: "globals \<Rightarrow> string option list \<Rightarrow> AccessData \<Rightarrow> bool \<Rightarrow> id_progress" where
  "checkID_branches g con recvData malloc_ok =
     (case find_uid (head g) (AccessData.uid recvData) of
        None \<Rightarrow> checkID_unknown g con recvData malloc_ok
      | Some i \<Rightarrow> checkID_known g con recvData i)"

text \<open>The rest of the pass: the assignment where the branch has it, and the delays of
  lines 232 and 234.\<close>

fun checkID_rest :: "id_progress \<Rightarrow> id_result" where
  "checkID_rest (At_assignment g con) =
     Done (emit (g\<lparr>Remote_Door := True\<rparr>) [vTaskDelay 1000, vTaskDelay 10]) con"
| "checkID_rest (After_branch g con) = Done (emit g [vTaskDelay 1000, vTaskDelay 10]) con"
| "checkID_rest (In_input_loop g) = Stalled g"

text \<open>The body of the loop of \<open>checkID\<close> for one event taken from \<open>RecvQueue\<close>.\<close>

definition checkID_event :: "globals \<Rightarrow> string option list \<Rightarrow> AccessData \<Rightarrow> bool \<Rightarrow> id_result" where
  "checkID_event g con recvData malloc_ok =
     checkID_rest (checkID_branches g con recvData malloc_ok)"

text \<open>The task over a sequence of events, each with the outcome of the \<open>malloc\<close> it may
  make. A stalled task handles no further event.\<close>

fun checkID :: "globals \<Rightarrow> string option list \<Rightarrow> (AccessData \<times> bool) list \<Rightarrow> id_result" where
  "checkID g con [] = Done g con"
| "checkID g con ((recvData, malloc_ok) # evs) =
     (case checkID_event g con recvData malloc_ok of
        Done g' con' \<Rightarrow> checkID g' con' evs
      | Stalled g' \<Rightarrow> Stalled g')"

section \<open>The door controller (\<open>Task_DoorController\<close>) and the actuator (\<open>Task_Door\<close>)\<close>

text \<open>Lines 287 to 303: the new state, and the globals after the branch taken.\<close>

definition Task_DoorController_branch :: "int \<Rightarrow> DoorState \<Rightarrow> globals \<Rightarrow> DoorState \<times> globals" where
  "Task_DoorController_branch buttonState currentState g =
     (if currentState = CLOSE then
        (if buttonState = LOW \<or> Remote_Door g = True
         then (OPEN, emit g [Serial0_println ''Door: Open''])
         else (currentState, g))
      else if currentState = OPEN then
        (if buttonState = LOW
         then (CLOSE, emit ((emit g [Serial0_println ''Door: Closed''])\<lparr>Remote_Door := False\<rparr>)
                           [lcd_clear])
         else (currentState, g))
      else (CLOSE, g))"

text \<open>\<open>DoorQueue = xQueueCreate(1, sizeof(DoorState))\<close> holds one item.
  \<open>xQueueSend(DoorQueue, &currentState, portMAX_DELAY)\<close> appends the item when the queue
  has room; when it is full the caller is suspended, with no time limit, until another
  task takes the item out: \<open>None\<close>.\<close>

definition DoorQueue_length :: nat where
  "DoorQueue_length = 1"

definition xQueueSend :: "DoorState list \<Rightarrow> DoorState \<Rightarrow> DoorState list option" where
  "xQueueSend q item = (if length q < DoorQueue_length then Some (q @ [item]) else None)"

text \<open>One iteration of the loop of \<open>Task_DoorController\<close> (lines 285 to 308) run on its
  own, with \<open>pin\<close> the level \<open>digitalRead\<close> returns: the new \<open>currentState\<close> and globals, or
  \<open>None\<close> when the iteration cannot finish unless another task runs.\<close>

definition Task_DoorController_iter :: "int \<Rightarrow> DoorState \<Rightarrow> globals \<Rightarrow> (DoorState \<times> globals) option" where
  "Task_DoorController_iter pin currentState g =
     (let buttonState = pin;
          (cs, g1) = Task_DoorController_branch buttonState currentState g
      in case xQueueSend (DoorQueue g1) cs of
           None \<Rightarrow> None
         | Some q \<Rightarrow>
             Some (cs, emit (g1\<lparr>DoorQueue := q, Remote_Door := False\<rparr>) [vTaskDelay 300]))"

text \<open>One iteration of the loop of \<open>Task_Door\<close>: \<open>None\<close> while the queue is empty (the
  task is suspended in \<open>xQueueReceive\<close>).\<close>

definition Task_Door_iter :: "globals \<Rightarrow> globals option" where
  "Task_Door_iter g =
     (case DoorQueue g of
        [] \<Rightarrow> None
      | receivedState # q \<Rightarrow>
          Some (emit (g\<lparr>DoorQueue := q\<rparr>)
                     [Servo_write (if receivedState = OPEN then 180 else 0), vTaskDelay 100]))"

subsection \<open>The tasks running together\<close>

text \<open>The controller statement by statement: the program counter says which statement of
  the loop body is next.\<close>

datatype door_pc = At_digitalRead | At_decide | At_xQueueSend | At_clear | At_vTaskDelay

record door_task =
  pc :: door_pc
  buttonState :: int
  currentState :: DoorState

definition door_task_init :: door_task where
  "door_task_init = \<lparr>pc = At_digitalRead, buttonState = HIGH, currentState = CLOSE\<rparr>"

fun Task_DoorController_stmt :: "int \<Rightarrow> door_task \<times> globals \<Rightarrow> (door_task \<times> globals) option" where
  "Task_DoorController_stmt pin (t, g) =
     (case pc t of
        At_digitalRead \<Rightarrow> Some (t\<lparr>pc := At_decide, buttonState := pin\<rparr>, g)
      | At_decide \<Rightarrow>
          (let (cs, g') = Task_DoorController_branch (buttonState t) (currentState t) g
           in Some (t\<lparr>pc := At_xQueueSend, currentState := cs\<rparr>, g'))
      | At_xQueueSend \<Rightarrow>
          (case xQueueSend (DoorQueue g) (currentState t) of
             None \<Rightarrow> None
           | Some q \<Rightarrow> Some (t\<lparr>pc := At_clear\<rparr>, g\<lparr>DoorQueue := q\<rparr>))
      | At_clear \<Rightarrow> Some (t\<lparr>pc := At_vTaskDelay\<rparr>, g\<lparr>Remote_Door := False\<rparr>)
      | At_vTaskDelay \<Rightarrow> Some (t\<lparr>pc := At_digitalRead\<rparr>, emit g [vTaskDelay 300]))"

text \<open>The identification task in three steps: from the receipt of an event up to the
  assignment to \<open>Remote_Door\<close> (these statements read and write neither the flag nor the
  queue, which are all the controller and the actuator touch), the assignment, and the
  delays.\<close>

datatype ident_pc = At_xQueueReceive | At_Remote_Door_true | At_delays | At_input_loop

record system =
  door :: door_task
  ident :: ident_pc
  shared :: globals

definition system_init :: system where
  "system_init = \<lparr>door = door_task_init, ident = At_xQueueReceive, shared = globals_init\<rparr>"

text \<open>A schedule is a list of actions: the controller executes its next statement; the
  identification task receives an event and handles it up to the assignment (with the
  console polls it sees and the outcome of its allocation), or executes its next step;
  the actuator task runs one iteration. An action that cannot run (a suspended task)
  makes the schedule impossible: \<open>None\<close>.\<close>

datatype action =
    Door_stmt int
  | Ident_receive "string option list" AccessData bool
  | Ident_stmt
  | Actuator_iter

fun sys_step :: "action \<Rightarrow> system \<Rightarrow> system option" where
  "sys_step (Door_stmt pin) s =
     map_option (\<lambda>(t, g). s\<lparr>door := t, shared := g\<rparr>) (Task_DoorController_stmt pin (door s, shared s))"
| "sys_step (Ident_receive con recvData malloc_ok) s =
     (if ident s \<noteq> At_xQueueReceive then None
      else (case checkID_branches (shared s) con recvData malloc_ok of
              At_assignment g con' \<Rightarrow> Some (s\<lparr>ident := At_Remote_Door_true, shared := g\<rparr>)
            | After_branch g con' \<Rightarrow> Some (s\<lparr>ident := At_delays, shared := g\<rparr>)
            | In_input_loop g \<Rightarrow> Some (s\<lparr>ident := At_input_loop, shared := g\<rparr>)))"
| "sys_step Ident_stmt s =
     (case ident s of
        At_Remote_Door_true \<Rightarrow>
          Some (s\<lparr>ident := At_delays, shared := (shared s)\<lparr>Remote_Door := True\<rparr>\<rparr>)
      | At_delays \<Rightarrow>
          Some (s\<lparr>ident := At_xQueueReceive,
                   shared := emit (shared s) [vTaskDelay 1000, vTaskDelay 10]\<rparr>)
      | At_xQueueReceive \<Rightarrow> None
      | At_input_loop \<Rightarrow> None)"
| "sys_step Actuator_iter s = map_option (\<lambda>g. s\<lparr>shared := g\<rparr>) (Task_Door_iter (shared s))"

fun run :: "system \<Rightarrow> action list \<Rightarrow> system option" where
  "run s [] = Some s"
| "run s (a # as) = (case sys_step a s of None \<Rightarrow> None | Some s' \<Rightarrow> run s' as)"

section \<open>Example data\<close>

definition emp_AA :: Employee where
  "emp_AA = \<lparr>Employee.uid = ''AA'', entryTime = ''09:00:00'', exitTime = [], isEntering = True\<rparr>"

definition emp_BB :: Employee where
  "emp_BB = \<lparr>Employee.uid = ''BB'', entryTime = ''09:10:00'', exitTime = ''17:00:00'',
              isEntering = False\<rparr>"

definition emp_CC :: Employee where
  "emp_CC = \<lparr>Employee.uid = ''CC'', entryTime = ''09:20:00'', exitTime = [], isEntering = True\<rparr>"

definition event_AA :: AccessData where
  "event_AA = \<lparr>AccessData.uid = ''AA'', time = ''17:30:00''\<rparr>"

definition event_new :: AccessData where
  "event_new = \<lparr>AccessData.uid = ''AA:BB:CC'', time = ''09:00:00''\<rparr>"

subsection \<open>Two schedules\<close>

text \<open>Three iterations of the controller with the button released, the actuator running
  after each, and one event of a new UID, received after the first iteration, that the
  operator accepts. In the first schedule the identification task executes
  \<open>Remote_Door = true\<close> after the controller has tested the flag in its second iteration
  and before the controller clears the flag in that iteration; in the second schedule it
  executes the assignment between the second and the third iteration.\<close>

definition lost_set_schedule :: "action list" where
  "lost_set_schedule =
     [Door_stmt HIGH, Door_stmt HIGH, Door_stmt HIGH, Door_stmt HIGH, Door_stmt HIGH, Actuator_iter,
      Ident_receive [Some ''y''] event_new True,
      Door_stmt HIGH, Door_stmt HIGH,
      Ident_stmt,
      Door_stmt HIGH, Door_stmt HIGH, Door_stmt HIGH, Actuator_iter,
      Ident_stmt,
      Door_stmt HIGH, Door_stmt HIGH, Door_stmt HIGH, Door_stmt HIGH, Door_stmt HIGH, Actuator_iter]"

definition seen_set_schedule :: "action list" where
  "seen_set_schedule =
     [Door_stmt HIGH, Door_stmt HIGH, Door_stmt HIGH, Door_stmt HIGH, Door_stmt HIGH, Actuator_iter,
      Ident_receive [Some ''y''] event_new True,
      Door_stmt HIGH, Door_stmt HIGH, Door_stmt HIGH, Door_stmt HIGH, Door_stmt HIGH, Actuator_iter,
      Ident_stmt,
      Ident_stmt,
      Door_stmt HIGH, Door_stmt HIGH, Door_stmt HIGH, Door_stmt HIGH, Door_stmt HIGH, Actuator_iter]"

text \<open>What is looked at after a schedule: the controller's state, the flag, the UIDs of
  the registry and the positions written to the servo.\<close>

fun servo_writes :: "effect list \<Rightarrow> nat list" where
  "servo_writes [] = []"
| "servo_writes (Servo_write a # es) = a # servo_writes es"
| "servo_writes (e # es) = servo_writes es"

definition observe :: "system option \<Rightarrow> (DoorState \<times> bool \<times> string list \<times> nat list) option" where
  "observe r =
     map_option (\<lambda>s. (currentState (door s), Remote_Door (shared s),
                      map Employee.uid (head (shared s)), servo_writes (out (shared s)))) r"

text \<open>A memory with three nodes.\<close>

definition mem_ABC :: memory where
  "mem_ABC = [1 \<mapsto> (emp_AA, Some 2), 2 \<mapsto> (emp_BB, Some 5), 5 \<mapsto> (emp_CC, None)]"

section \<open>The registry operations\<close>

lemma find_uid_None: "(find_uid h u = None) = (u \<notin> set (map Employee.uid h))"
  by (induction h) auto

lemma find_uid_Some: "find_uid h u = Some i \<Longrightarrow> i < length h \<and> Employee.uid (h ! i) = u"
  by (induction h arbitrary: i) (auto split: if_splits)

lemma find_record_Nil: "find_record [] u = None"
  by (simp add: find_record_def)

lemma find_record_Cons:
  "find_record (e # es) u = (if Employee.uid e = u then Some e else find_record es u)"
  by (simp add: find_record_def option.map_comp comp_def)

lemma find_record_None: "(find_record h u = None) = (u \<notin> set (map Employee.uid h))"
  by (simp add: find_record_def find_uid_None)

lemma find_record_uid: "find_record h u = Some r \<Longrightarrow> Employee.uid r = u"
  by (induction h) (auto simp: find_record_Nil find_record_Cons split: if_splits)

lemma find_record_update_same:
  "find_uid h u = Some i \<Longrightarrow> Employee.uid r = u \<Longrightarrow> find_record (h[i := r]) u = Some r"
  by (induction h arbitrary: i) (auto simp: find_record_Cons split: if_splits)

lemma find_record_update_other:
  "find_uid h v = Some i \<Longrightarrow> Employee.uid r = v \<Longrightarrow> v \<noteq> u \<Longrightarrow>
   find_record (h[i := r]) u = find_record h u"
  by (induction h arbitrary: i) (auto simp: find_record_Cons split: if_splits)

lemma map_uid_update:
  "Employee.uid r = Employee.uid (h ! i) \<Longrightarrow> map Employee.uid (h[i := r]) = map Employee.uid h"
  by (induction h arbitrary: i) (auto split: nat.splits)

lemma removeEmployee_absent: "u \<notin> set (map Employee.uid h) \<Longrightarrow> removeEmployee h u = h"
  by (induction h) auto

lemma removeEmployee_subset:
  "set (map Employee.uid (removeEmployee h u)) \<subseteq> set (map Employee.uid h)"
  by (induction h) auto

lemma removeEmployee_distinct:
  "distinct (map Employee.uid h) \<Longrightarrow> distinct (map Employee.uid (removeEmployee h u))"
  using removeEmployee_subset by (induction h) auto

lemma removeEmployee_gone:
  "distinct (map Employee.uid h) \<Longrightarrow> u \<notin> set (map Employee.uid (removeEmployee h u))"
  by (induction h) auto

lemma removeEmployee_split:
  "distinct (map Employee.uid (xs @ e # ys)) \<Longrightarrow>
   removeEmployee (xs @ e # ys) (Employee.uid e) = xs @ ys"
  by (induction xs) auto

lemma find_record_remove_other:
  "v \<noteq> u \<Longrightarrow> find_record (removeEmployee h v) u = find_record h u"
  by (induction h) (auto simp: find_record_Cons find_record_Nil)

lemma find_record_remove_same:
  "distinct (map Employee.uid h) \<Longrightarrow> find_record (removeEmployee h u) u = None"
  using removeEmployee_gone [of h u] by (simp add: find_record_None)

section \<open>The pointer operations implement the list operations\<close>

lemma chain_Nil: "chain mem p [] = (p = None)"
  by (simp add: chain_def)

lemma chain_Cons:
  "chain mem p ((a, e) # ns) = (p = Some a \<and> (\<exists>nx. mem a = Some (e, nx) \<and> chain mem nx ns))"
  by (auto simp: chain_def split: option.splits)

lemma chain_None: "chain mem None ns = (ns = [])"
  by (cases ns) (auto simp: chain_Nil chain_Cons)

lemma path_append:
  "path mem p (ns @ ms) q = (\<exists>r. path mem p ns r \<and> path mem r ms q)"
  by (induction ns arbitrary: p) (auto split: option.splits)

lemma chain_append:
  "chain mem p (ns @ ms) = (\<exists>r. path mem p ns r \<and> chain mem r ms)"
  by (simp add: chain_def path_append)

lemma chain_unique: "chain mem p ns \<Longrightarrow> chain mem p ms \<Longrightarrow> ns = ms"
proof (induction ns arbitrary: p ms)
  case Nil
  then show ?case by (simp add: chain_Nil chain_None)
next
  case (Cons n ns)
  obtain a e where n: "n = (a, e)" by (cases n)
  from Cons.prems(1) n obtain nx where p: "p = Some a" and m: "mem a = Some (e, nx)"
    and c: "chain mem nx ns"
    by (auto simp: chain_Cons)
  from Cons.prems(2) p m obtain ms' where ms: "ms = (a, e) # ms'" and c': "chain mem nx ms'"
    by (cases ms) (auto simp: chain_Nil chain_Cons)
  from Cons.IH [OF c c'] ms n show ?case by simp
qed

lemma chain_addr_fresh:
  assumes "chain mem (Some a) ((a, e) # ns)"
  shows "a \<notin> fst ` set ns"
proof
  assume "a \<in> fst ` set ns"
  then obtain e' where "(a, e') \<in> set ns" by auto
  then obtain xs ys where ns: "ns = xs @ (a, e') # ys"
    by (auto simp: in_set_conv_decomp)
  from assms obtain nx where m: "mem a = Some (e, nx)" and c: "chain mem nx ns"
    by (auto simp: chain_Cons)
  from c ns obtain r where "chain mem r ((a, e') # ys)"
    by (auto simp: chain_append)
  with m have "chain mem nx ys"
    by (auto simp: chain_Cons)
  with c have "ns = ys" by (rule chain_unique)
  with ns show False by simp
qed

lemma chain_distinct: "chain mem p ns \<Longrightarrow> distinct (map fst ns)"
proof (induction ns arbitrary: p)
  case Nil
  then show ?case by simp
next
  case (Cons n ns)
  obtain a e where n: "n = (a, e)" by (cases n)
  with Cons.prems have p: "p = Some a" by (simp add: chain_Cons)
  from Cons.prems n p have "a \<notin> fst ` set ns"
    using chain_addr_fresh [of mem a e ns] by simp
  moreover from Cons.prems n obtain nx where "chain mem nx ns"
    by (auto simp: chain_Cons)
  ultimately show ?case using Cons.IH n by auto
qed

lemma chain_member: "chain mem p ns \<Longrightarrow> (a, e) \<in> set ns \<Longrightarrow> \<exists>nx. mem a = Some (e, nx)"
  by (induction ns arbitrary: p) (auto simp: chain_Cons)

lemma chain_allocated: "chain mem p ns \<Longrightarrow> fst ` set ns \<subseteq> dom mem"
  using chain_member by fastforce

lemma path_update_outside:
  "a \<notin> fst ` set ns \<Longrightarrow> path (mem(a := v)) p ns q = path mem p ns q"
  by (induction ns arbitrary: p) (auto split: option.splits)

lemma chain_update_outside:
  "a \<notin> fst ` set ns \<Longrightarrow> chain (mem(a := v)) p ns = chain mem p ns"
  by (simp add: chain_def path_update_outside)

text \<open>The two loops on a chain.\<close>

lemma search_loop_chain:
  "chain mem p ns \<Longrightarrow>
   search_loop mem p u = Some (map_option (\<lambda>i. fst (ns ! i)) (find_uid (map snd ns) u))"
proof (induction ns arbitrary: p)
  case Nil
  then show ?case by (simp add: chain_Nil search_loop.simps)
next
  case (Cons n ns)
  obtain a e where n: "n = (a, e)" by (cases n)
  from Cons.prems n obtain nx where p: "p = Some a" and m: "mem a = Some (e, nx)"
    and c: "chain mem nx ns"
    by (auto simp: chain_Cons)
  show ?case
    using Cons.IH [OF c] p m n
    by (subst search_loop.simps) (simp add: option.map_comp comp_def)
qed

lemma unlink_loop_chain:
  "chain mem p ns \<Longrightarrow> unlink_loop mem prev p u = Some (unlink_at prev ns u)"
proof (induction ns arbitrary: p prev)
  case Nil
  then show ?case by (simp add: chain_Nil unlink_loop.simps)
next
  case (Cons n ns)
  obtain a e where n: "n = (a, e)" by (cases n)
  from Cons.prems n obtain nx where p: "p = Some a" and m: "mem a = Some (e, nx)"
    and c: "chain mem nx ns"
    by (auto simp: chain_Cons)
  show ?case
    using Cons.IH [OF c, of "Some a"] p m n
    by (subst unlink_loop.simps) simp
qed

lemma without_removeEmployee: "map snd (without ns u) = removeEmployee (map snd ns) u"
  by (induction ns u rule: without.induct) auto

lemma without_subset: "set (without ns u) \<subseteq> set ns"
  by (induction ns u rule: without.induct) auto

lemma addEmployee_mem_chain:
  assumes c: "chain mem hd_ptr ns" and f: "a \<notin> dom mem"
  shows "addEmployee_mem (mem, hd_ptr) u t (Some a)
           = ((mem(a \<mapsto> (\<lparr>Employee.uid = u, entryTime = t, exitTime = [], isEntering = True\<rparr>, hd_ptr)),
               Some a), [Serial_println ''Employee added successfully.''])
       \<and> chain (mem(a \<mapsto> (\<lparr>Employee.uid = u, entryTime = t, exitTime = [], isEntering = True\<rparr>, hd_ptr)))
               (Some a) ((a, \<lparr>Employee.uid = u, entryTime = t, exitTime = [], isEntering = True\<rparr>) # ns)"
proof -
  from chain_allocated [OF c] f have "a \<notin> fst ` set ns" by auto
  with c show ?thesis
    by (simp add: addEmployee_mem_def chain_Cons chain_update_outside)
qed

text \<open>Unlinking behind a predecessor: the chain from \<open>q\<close> starts with nodes that do not
  match, the last of them at \<open>p\<close>.\<close>

lemma unlink_at_prefix:
  "\<forall>x \<in> set xs. Employee.uid (snd x) \<noteq> u \<Longrightarrow> Employee.uid e = u \<Longrightarrow>
   unlink_at prev (xs @ (a, e) # ys) u = ((if xs = [] then prev else Some (fst (last xs))), Some a)"
  by (induction xs arbitrary: prev) auto

lemma unlink_at_no_match:
  "\<forall>x \<in> set ns. Employee.uid (snd x) \<noteq> u \<Longrightarrow> snd (unlink_at prev ns u) = None"
  by (induction ns arbitrary: prev) auto

lemma without_prefix:
  "\<forall>x \<in> set xs. Employee.uid (snd x) \<noteq> u \<Longrightarrow> Employee.uid e = u \<Longrightarrow>
   without (xs @ (a, e) # ys) u = xs @ ys"
  by (induction xs) auto

lemma without_no_match:
  "\<forall>x \<in> set ns. Employee.uid (snd x) \<noteq> u \<Longrightarrow> without ns u = ns"
  by (induction ns) auto

lemma first_match_split:
  "\<exists>x \<in> set ns. Employee.uid (snd x) = u \<Longrightarrow>
   \<exists>xs a e ys. ns = xs @ (a, e) # ys \<and> (\<forall>x \<in> set xs. Employee.uid (snd x) \<noteq> u) \<and> Employee.uid e = u"
proof (induction ns)
  case Nil
  then show ?case by simp
next
  case (Cons n ns)
  obtain a e where n: "n = (a, e)" by (cases n)
  show ?case
  proof (cases "Employee.uid e = u")
    case True
    with n have "n # ns = [] @ (a, e) # ns \<and> (\<forall>x \<in> set []. Employee.uid (snd x) \<noteq> u) \<and> Employee.uid e = u"
      by simp
    then show ?thesis by blast
  next
    case False
    with Cons.prems n have "\<exists>x \<in> set ns. Employee.uid (snd x) = u" by auto
    from Cons.IH [OF this] obtain xs b f ys where
      "ns = xs @ (b, f) # ys" "\<forall>x \<in> set xs. Employee.uid (snd x) \<noteq> u" "Employee.uid f = u"
      by blast
    with False n have "n # ns = (n # xs) @ (b, f) # ys
        \<and> (\<forall>x \<in> set (n # xs). Employee.uid (snd x) \<noteq> u) \<and> Employee.uid f = u"
      by simp
    then show ?thesis by blast
  qed
qed

lemma removeEmployee_mem_chain:
  assumes c: "chain mem hd_ptr ns"
  shows "\<exists>mem' hd'. removeEmployee_mem (mem, hd_ptr) u = Some (mem', hd')
           \<and> chain mem' hd' (without ns u)"
proof (cases "\<exists>x \<in> set ns. Employee.uid (snd x) = u")
  case False
  then have nm: "\<forall>x \<in> set ns. Employee.uid (snd x) \<noteq> u" by simp
  obtain prev where "unlink_at None ns u = (prev, None)"
    using unlink_at_no_match [OF nm, of None] by (cases "unlink_at None ns u") simp
  with c nm show ?thesis
    by (simp add: removeEmployee_mem_def unlink_loop_chain [OF c] without_no_match)
next
  case True
  from first_match_split [OF True] obtain xs a e ys where
    ns: "ns = xs @ (a, e) # ys" and nm: "\<forall>x \<in> set xs. Employee.uid (snd x) \<noteq> u"
    and e: "Employee.uid e = u"
    by blast
  have w: "without ns u = xs @ ys"
    using nm e by (simp add: ns without_prefix)
  have d: "distinct (map fst ns)"
    using c by (rule chain_distinct)
  from c ns obtain r where px: "path mem hd_ptr xs r" and ca: "chain mem r ((a, e) # ys)"
    by (auto simp: chain_append)
  from ca obtain nx where r: "r = Some a" and ma: "mem a = Some (e, nx)" and cy: "chain mem nx ys"
    by (auto simp: chain_Cons)
  have ax: "a \<notin> fst ` set xs" and ay: "a \<notin> fst ` set ys"
    using d by (auto simp: ns)
  show ?thesis
  proof (cases xs rule: rev_cases)
    case Nil
    with px r have h: "hd_ptr = Some a" by simp
    have "unlink_at None ns u = (None, Some a)"
      using unlink_at_prefix [OF nm e, of None a ys] Nil by (simp add: ns)
    then have "removeEmployee_mem (mem, hd_ptr) u = Some (mem(a := None), nx)"
      using ma by (simp add: removeEmployee_mem_def unlink_loop_chain [OF c])
    moreover have "chain (mem(a := None)) nx (without ns u)"
      using cy ay Nil by (simp add: w chain_update_outside)
    ultimately show ?thesis by blast
  next
    case (snoc xs' n)
    obtain p pe where n: "n = (p, pe)" by (cases n)
    from px snoc n obtain q where pq: "path mem hd_ptr xs' q" and pp: "path mem q [(p, pe)] r"
      by (auto simp: path_append)
    from pp r have q: "q = Some p" and mp: "mem p = Some (pe, Some a)"
      by (auto split: option.splits)
    have pa: "p \<noteq> a" using ax snoc n by auto
    have px': "p \<notin> fst ` set xs'" and py: "p \<notin> fst ` set ys"
      using d by (auto simp: ns snoc n)
    have ax': "a \<notin> fst ` set xs'" using ax snoc by auto
    let ?mem' = "(mem(p \<mapsto> (pe, nx)))(a := None)"
    have "unlink_at None ns u = (Some p, Some a)"
      using unlink_at_prefix [OF nm e, of None a ys] snoc n by (simp add: ns)
    then have "removeEmployee_mem (mem, hd_ptr) u = Some (?mem', hd_ptr)"
      using ma mp by (simp add: removeEmployee_mem_def unlink_loop_chain [OF c])
    moreover have "chain ?mem' hd_ptr (xs' @ (p, pe) # ys)"
    proof -
      have 1: "path ?mem' hd_ptr xs' (Some p)"
        using pq q px' ax' by (simp add: path_update_outside)
      have 2: "chain ?mem' nx ys"
        using cy py ay by (simp add: chain_update_outside)
      have 3: "?mem' p = Some (pe, nx)"
        using pa by simp
      from 1 2 3 show ?thesis
        by (auto simp: chain_append chain_Cons)
    qed
    ultimately show ?thesis
      using w snoc n by auto
  qed
qed

lemma chain_update_node:
  "chain mem p ns \<Longrightarrow> i < length ns \<Longrightarrow> fst (ns ! i) = a \<Longrightarrow> mem a = Some (e, nx) \<Longrightarrow>
   chain (mem(a \<mapsto> (e', nx))) p (ns[i := (a, e')])"
proof (induction ns arbitrary: p i)
  case Nil
  then show ?case by simp
next
  case (Cons n ns)
  obtain b f where n: "n = (b, f)" by (cases n)
  from Cons.prems(1) n obtain bx where p: "p = Some b" and mb: "mem b = Some (f, bx)"
    and c: "chain mem bx ns"
    by (auto simp: chain_Cons)
  have fresh: "b \<notin> fst ` set ns"
    using Cons.prems(1) n p chain_addr_fresh [of mem b f ns] by simp
  show ?case
  proof (cases i)
    case 0
    with Cons.prems n have ba: "b = a" by simp
    with Cons.prems(4) mb have nx: "bx = nx" by simp
    have "chain (mem(a \<mapsto> (e', nx))) nx ns"
      using c fresh ba nx chain_update_outside [of a ns mem "Some (e', nx)" nx] by simp
    then have "chain (mem(a \<mapsto> (e', nx))) (Some a) ((a, e') # ns)"
      by (simp only: chain_Cons) simp
    then show ?thesis unfolding 0 p n ba list_update_code .
  next
    case (Suc j)
    with Cons.prems have j: "j < length ns" "fst (ns ! j) = a" by simp_all
    then have "a \<in> fst ` set ns" by (metis image_eqI nth_mem)
    with fresh have ne: "a \<noteq> b" by auto
    from Cons.IH [OF c j Cons.prems(4)] ne mb p n Suc show ?thesis
      by (simp add: chain_Cons)
  qed
qed

section \<open>One event of the identification task\<close>

lemma checkID_known_entering:
  "\<not> isEntering (head g ! i) \<Longrightarrow>
   checkID_known g con ev i =
     At_assignment
       (g\<lparr>head := (head g)[i := (head g ! i)\<lparr>isEntering := True, entryTime := AccessData.time ev\<rparr>]\<rparr>)
       con"
  by (simp add: checkID_known_def)

lemma checkID_known_exiting_flag:
  "isEntering (head g ! i) \<Longrightarrow>
   Remote_Door (state_of (checkID_rest (checkID_known g con ev i))) = Remote_Door g"
  by (simp add: checkID_known_def emit_def Let_def split: option.splits prod.splits)

lemma checkID_known_exiting_head:
  "isEntering (head g ! i) \<Longrightarrow>
   head (state_of (checkID_rest (checkID_known g con ev i))) =
     (let h = (head g)[i := (head g ! i)\<lparr>isEntering := False, exitTime := AccessData.time ev\<rparr>]
      in case wait_input con of
           None \<Rightarrow> h
         | Some (input, con', n) \<Rightarrow>
             if equalsIgnoreCase input ''y'' then removeEmployee h (AccessData.uid ev) else h)"
  by (simp add: checkID_known_def emit_def Let_def split: option.splits prod.splits)

lemma checkID_unknown_head:
  "head (state_of (checkID_rest (checkID_unknown g con ev m))) =
     (case wait_input con of
        None \<Rightarrow> head g
      | Some (input, con', n) \<Rightarrow>
          if equalsIgnoreCase input ''y''
          then fst (addEmployee (head g) (AccessData.uid ev) (AccessData.time ev) m)
          else head g)"
  by (simp add: checkID_unknown_def emit_def Let_def split: option.splits prod.splits)

lemma checkID_event_distinct:
  assumes "distinct (map Employee.uid (head g))"
  shows "distinct (map Employee.uid (head (state_of (checkID_event g con ev m))))"
proof (cases "find_uid (head g) (AccessData.uid ev)")
  case None
  then have "AccessData.uid ev \<notin> set (map Employee.uid (head g))"
    by (simp add: find_uid_None)
  with assms None show ?thesis
    by (auto simp: checkID_event_def checkID_branches_def checkID_unknown_head addEmployee_def split: option.splits)
next
  case (Some i)
  show ?thesis
  proof (cases "isEntering (head g ! i)")
    case True
    have "distinct (map Employee.uid ((head g)[i := (head g ! i)\<lparr>isEntering := False, exitTime := AccessData.time ev\<rparr>]))"
      using assms by (simp add: map_uid_update)
    with Some True show ?thesis
      by (auto simp: checkID_event_def checkID_branches_def checkID_known_exiting_head Let_def removeEmployee_distinct
               split: option.splits)
  next
    case False
    with Some assms show ?thesis
      by (simp add: checkID_event_def checkID_branches_def checkID_known_entering emit_def map_uid_update)
  qed
qed

lemma checkID_distinct:
  "distinct (map Employee.uid (head g)) \<Longrightarrow>
   distinct (map Employee.uid (head (state_of (checkID g con evs))))"
proof (induction evs arbitrary: g con)
  case Nil
  then show ?case by simp
next
  case (Cons e evs)
  obtain ev m where e: "e = (ev, m)" by (cases e)
  from checkID_event_distinct [OF Cons.prems, of con ev m] Cons.IH
  show ?case
    by (cases "checkID_event g con ev m") (simp_all add: e)
qed

lemma checkID_known_head:
  "head (state_of (checkID_rest (checkID_known g con ev i))) =
     (if isEntering (head g ! i) then
        (let h = (head g)[i := (head g ! i)\<lparr>isEntering := False, exitTime := AccessData.time ev\<rparr>]
         in case wait_input con of
              None \<Rightarrow> h
            | Some (input, con', n) \<Rightarrow>
                if equalsIgnoreCase input ''y'' then removeEmployee h (AccessData.uid ev) else h)
      else (head g)[i := (head g ! i)\<lparr>isEntering := True, entryTime := AccessData.time ev\<rparr>])"
  by (simp add: checkID_known_exiting_head checkID_known_entering emit_def)

text \<open>What handling an event does to the record of its UID, when the record is still there
  afterwards, and to the records of the other UIDs.\<close>

lemma checkID_event_same_uid:
  assumes d: "distinct (map Employee.uid (head g))"
    and f: "find_record (head g) (AccessData.uid ev) = Some r"
    and f': "find_record (head (state_of (checkID_event g con ev m))) (AccessData.uid ev) = Some r'"
  shows "r' = (if isEntering r then r\<lparr>isEntering := False, exitTime := AccessData.time ev\<rparr>
               else r\<lparr>isEntering := True, entryTime := AccessData.time ev\<rparr>)"
proof -
  from f obtain i where i: "find_uid (head g) (AccessData.uid ev) = Some i" and r: "r = head g ! i"
    by (auto simp: find_record_def)
  have u: "Employee.uid r = AccessData.uid ev"
    using f by (rule find_record_uid)
  let ?x = "r\<lparr>isEntering := False, exitTime := AccessData.time ev\<rparr>"
  let ?e = "r\<lparr>isEntering := True, entryTime := AccessData.time ev\<rparr>"
  have fx: "find_record ((head g)[i := ?x]) (AccessData.uid ev) = Some ?x"
    using i u by (simp add: find_record_update_same)
  have fe: "find_record ((head g)[i := ?e]) (AccessData.uid ev) = Some ?e"
    using i u by (simp add: find_record_update_same)
  have dx: "distinct (map Employee.uid ((head g)[i := ?x]))"
    using d u r by (simp add: map_uid_update)
  show ?thesis
  proof (cases "isEntering r")
    case True
    with f' i r fx find_record_remove_same [OF dx, of "AccessData.uid ev"] show ?thesis
      by (auto simp: checkID_event_def checkID_branches_def checkID_known_head Let_def split: option.splits if_splits)
  next
    case False
    with f' i r fe show ?thesis
      by (simp add: checkID_event_def checkID_branches_def checkID_known_head)
  qed
qed

lemma checkID_event_other_uid:
  assumes "AccessData.uid ev \<noteq> u"
  shows "find_record (head (state_of (checkID_event g con ev m))) u = find_record (head g) u"
proof (cases "find_uid (head g) (AccessData.uid ev)")
  case None
  with assms show ?thesis
    by (auto simp: checkID_event_def checkID_branches_def checkID_unknown_head addEmployee_def find_record_Cons
             split: option.splits)
next
  case (Some i)
  from find_uid_Some [OF Some] have "Employee.uid (head g ! i) = AccessData.uid ev" by simp
  with Some assms show ?thesis
    by (auto simp: checkID_event_def checkID_branches_def checkID_known_head Let_def find_record_remove_other
                   find_record_update_other split: option.splits)
qed

lemma length_removeEmployee: "length (removeEmployee h u) \<le> length h"
  by (induction h) auto

lemma checkID_event_grows:
  assumes "length (head g) < length (head (state_of (checkID_event g con ev m)))"
  shows "find_uid (head g) (AccessData.uid ev) = None"
proof (rule ccontr)
  assume "find_uid (head g) (AccessData.uid ev) \<noteq> None"
  then obtain i where "find_uid (head g) (AccessData.uid ev) = Some i" by auto
  then have "length (head (state_of (checkID_event g con ev m))) \<le> length (head g)"
    using length_removeEmployee [of "(head g)[i := (head g ! i)\<lparr>isEntering := False, exitTime := AccessData.time ev\<rparr>]" "AccessData.uid ev"]
    by (auto simp: checkID_event_def checkID_branches_def checkID_known_head Let_def split: option.splits)
  with assms show False by simp
qed

section \<open>Properties of the registry and of the identification task\<close>

text \<open>
  Claim C6. For every chain, UID \<open>u\<close> and time \<open>t\<close>: when \<open>addEmployee\<close> obtains its node,
  the new chain is the new record followed by the old chain, and the search for \<open>u\<close> ends
  at a record with \<open>entryTime = t\<close>, an empty \<open>exitTime\<close> and \<open>isEntering = true\<close>. In
  memory: when \<open>malloc\<close> returns an address not in use, \<open>head\<close> points at the new node, the
  new node holds that record and points at the old first node, the rest of the chain is
  as before, and the search loop for \<open>u\<close> stops at the new node.
\<close>

theorem addEmployee_then_find:
  "fst (addEmployee h u t True)
     = \<lparr>Employee.uid = u, entryTime = t, exitTime = [], isEntering = True\<rparr> # h
   \<and> find_record (fst (addEmployee h u t True)) u
     = Some \<lparr>Employee.uid = u, entryTime = t, exitTime = [], isEntering = True\<rparr>
   \<and> (chain mem hd_ptr ns \<and> a \<notin> dom mem \<longrightarrow>
        (\<exists>mem'. fst (addEmployee_mem (mem, hd_ptr) u t (Some a)) = (mem', Some a)
           \<and> mem' a = Some (\<lparr>Employee.uid = u, entryTime = t, exitTime = [], isEntering = True\<rparr>, hd_ptr)
           \<and> chain mem' (Some a)
                ((a, \<lparr>Employee.uid = u, entryTime = t, exitTime = [], isEntering = True\<rparr>) # ns)
           \<and> search_loop mem' (Some a) u = Some (Some a)))"
proof (intro conjI impI)
  show "fst (addEmployee h u t True)
     = \<lparr>Employee.uid = u, entryTime = t, exitTime = [], isEntering = True\<rparr> # h"
    by (simp add: addEmployee_def)
  show "find_record (fst (addEmployee h u t True)) u
     = Some \<lparr>Employee.uid = u, entryTime = t, exitTime = [], isEntering = True\<rparr>"
    by (simp add: addEmployee_def find_record_Cons)
next
  let ?new = "\<lparr>Employee.uid = u, entryTime = t, exitTime = [], isEntering = True\<rparr>"
  let ?mem' = "mem(a \<mapsto> (?new, hd_ptr))"
  assume "chain mem hd_ptr ns \<and> a \<notin> dom mem"
  then have c: "chain mem hd_ptr ns" and f: "a \<notin> dom mem" by simp_all
  from addEmployee_mem_chain [OF c f, of u t]
  have 1: "fst (addEmployee_mem (mem, hd_ptr) u t (Some a)) = (?mem', Some a)"
    and 2: "chain ?mem' (Some a) ((a, ?new) # ns)"
    by simp_all
  have 3: "search_loop ?mem' (Some a) u = Some (Some a)"
    by (subst search_loop.simps) simp
  from 1 2 3 show "\<exists>mem'. fst (addEmployee_mem (mem, hd_ptr) u t (Some a)) = (mem', Some a)
           \<and> mem' a = Some (?new, hd_ptr) \<and> chain mem' (Some a) ((a, ?new) # ns)
           \<and> search_loop mem' (Some a) u = Some (Some a)"
    by (intro exI [of _ ?mem']) simp
qed

theorem addEmployee_then_find_witness:
  "chain mem_ABC (Some 1) [(1, emp_AA), (2, emp_BB), (5, emp_CC)] \<and> 7 \<notin> dom mem_ABC
   \<and> (\<exists>mem'. fst (addEmployee_mem (mem_ABC, Some 1) ''DD'' ''10:00:00'' (Some 7)) = (mem', Some 7)
         \<and> chain mem' (Some 7)
             [(7, \<lparr>Employee.uid = ''DD'', entryTime = ''10:00:00'', exitTime = [], isEntering = True\<rparr>),
              (1, emp_AA), (2, emp_BB), (5, emp_CC)]
         \<and> search_loop mem' (Some 7) ''DD'' = Some (Some 7))"
proof -
  have c: "chain mem_ABC (Some 1) [(1, emp_AA), (2, emp_BB), (5, emp_CC)]"
    by (simp add: mem_ABC_def chain_def)
  have f: "7 \<notin> dom mem_ABC"
    by (simp add: mem_ABC_def)
  from addEmployee_then_find [of _ "''DD''" "''10:00:00''" mem_ABC "Some 1" "[(1, emp_AA), (2, emp_BB), (5, emp_CC)]" 7] c f
  show ?thesis by blast
qed

lemma find_uid_without:
  "distinct (map (Employee.uid \<circ> snd) ns) \<Longrightarrow> find_uid (map snd (without ns u)) u = None"
  using removeEmployee_gone [of "map snd ns" u]
  by (simp add: without_removeEmployee find_uid_None)

text \<open>
  Claim C7. A registry is a chain with at most one record per UID, as every chain the
  identification task builds from the empty one is. On such a chain the search for \<open>u\<close>
  after \<open>removeEmployee\<close> of \<open>u\<close> finds nothing, and wherever the record of \<open>u\<close> stood
  (any records before it, any after it) exactly that record is unlinked. On any chain,
  \<open>removeEmployee\<close> of a UID that the search does not find changes nothing. In memory:
  on a chain with one record per UID, \<open>removeEmployee\<close> returns, the nodes reached from
  \<open>head\<close> afterwards are the old ones without the first node of \<open>u\<close>, and the search loop
  for \<open>u\<close> then ends at \<open>NULL\<close>.
\<close>

theorem removeEmployee_then_find:
  "(distinct (map Employee.uid h) \<longrightarrow>
      find_record (removeEmployee h u) u = None
      \<and> (\<forall>xs e ys. h = xs @ e # ys \<and> Employee.uid e = u \<longrightarrow> removeEmployee h u = xs @ ys))
   \<and> (find_record h u = None \<longrightarrow> removeEmployee h u = h)
   \<and> find_record (removeEmployee (head (state_of (checkID globals_init con evs))) u) u = None
   \<and> (chain mem hd_ptr ns \<and> distinct (map (Employee.uid \<circ> snd) ns) \<longrightarrow>
        (\<exists>mem' hd'. removeEmployee_mem (mem, hd_ptr) u = Some (mem', hd')
           \<and> chain mem' hd' (without ns u)
           \<and> map snd (without ns u) = removeEmployee (map snd ns) u
           \<and> search_loop mem' hd' u = Some None))"
proof (intro conjI allI impI)
  assume d: "distinct (map Employee.uid h)"
  then show "find_record (removeEmployee h u) u = None"
    by (rule find_record_remove_same)
  show "removeEmployee h u = xs @ ys" if "h = xs @ e # ys \<and> Employee.uid e = u" for xs e ys
    using that d removeEmployee_split [of xs e ys] by simp
next
  assume "find_record h u = None"
  then show "removeEmployee h u = h"
    by (simp add: find_record_None removeEmployee_absent)
next
  have "distinct (map Employee.uid (head (state_of (checkID globals_init con evs))))"
    by (rule checkID_distinct) (simp add: globals_init_def)
  then show "find_record (removeEmployee (head (state_of (checkID globals_init con evs))) u) u = None"
    by (rule find_record_remove_same)
next
  assume "chain mem hd_ptr ns \<and> distinct (map (Employee.uid \<circ> snd) ns)"
  then have c: "chain mem hd_ptr ns" and d: "distinct (map (Employee.uid \<circ> snd) ns)"
    by simp_all
  from removeEmployee_mem_chain [OF c, of u] obtain mem' hd' where
    r: "removeEmployee_mem (mem, hd_ptr) u = Some (mem', hd')" and c': "chain mem' hd' (without ns u)"
    by blast
  have "search_loop mem' hd' u = Some None"
    using search_loop_chain [OF c', of u] find_uid_without [OF d, of u] by simp
  with r c' show "\<exists>mem' hd'. removeEmployee_mem (mem, hd_ptr) u = Some (mem', hd')
           \<and> chain mem' hd' (without ns u)
           \<and> map snd (without ns u) = removeEmployee (map snd ns) u
           \<and> search_loop mem' hd' u = Some None"
    by (auto simp: without_removeEmployee)
qed

theorem removeEmployee_then_find_witness:
  "distinct (map Employee.uid [emp_AA, emp_BB, emp_CC])
   \<and> find_record (removeEmployee [emp_AA, emp_BB, emp_CC] ''BB'') ''BB'' = None
   \<and> removeEmployee [emp_AA, emp_BB, emp_CC] ''BB'' = [emp_AA, emp_CC]
   \<and> find_record [emp_AA, emp_BB, emp_CC] ''DD'' = None
   \<and> removeEmployee [emp_AA, emp_BB, emp_CC] ''DD'' = [emp_AA, emp_BB, emp_CC]
   \<and> chain mem_ABC (Some 1) [(1, emp_AA), (2, emp_BB), (5, emp_CC)]
   \<and> distinct (map (Employee.uid \<circ> snd) [(1, emp_AA), (2, emp_BB), (5, emp_CC)])
   \<and> without [(1, emp_AA), (2, emp_BB), (5, emp_CC)] ''BB'' = [(1, emp_AA), (5, emp_CC)]
   \<and> (\<exists>mem' hd'. removeEmployee_mem (mem_ABC, Some 1) ''BB'' = Some (mem', hd')
         \<and> chain mem' hd' [(1, emp_AA), (5, emp_CC)]
         \<and> search_loop mem' hd' ''BB'' = Some None)"
proof -
  have d: "distinct (map Employee.uid [emp_AA, emp_BB, emp_CC])"
    by (simp add: emp_AA_def emp_BB_def emp_CC_def)
  have s: "[emp_AA, emp_BB, emp_CC] = [emp_AA] @ emp_BB # [emp_CC] \<and> Employee.uid emp_BB = ''BB''"
    by (simp add: emp_BB_def)
  have n: "find_record [emp_AA, emp_BB, emp_CC] ''DD'' = None"
    by (simp add: find_record_def emp_AA_def emp_BB_def emp_CC_def)
  have c: "chain mem_ABC (Some 1) [(1, emp_AA), (2, emp_BB), (5, emp_CC)]"
    by (simp add: mem_ABC_def chain_def)
  have dn: "distinct (map (Employee.uid \<circ> snd) [(1, emp_AA), (2, emp_BB), (5, emp_CC)])"
    by (simp add: emp_AA_def emp_BB_def emp_CC_def)
  have w: "without [(1, emp_AA), (2, emp_BB), (5, emp_CC)] ''BB'' = [(1, emp_AA), (5, emp_CC)]"
    by (simp add: emp_AA_def emp_BB_def emp_CC_def)
  from removeEmployee_then_find [of "[emp_AA, emp_BB, emp_CC]" "''BB''" _ _ mem_ABC "Some 1" "[(1, emp_AA), (2, emp_BB), (5, emp_CC)]"] d s c dn
  have "find_record (removeEmployee [emp_AA, emp_BB, emp_CC] ''BB'') ''BB'' = None
        \<and> removeEmployee [emp_AA, emp_BB, emp_CC] ''BB'' = [emp_AA] @ [emp_CC]
        \<and> (\<exists>mem' hd'. removeEmployee_mem (mem_ABC, Some 1) ''BB'' = Some (mem', hd')
             \<and> chain mem' hd' (without [(1, emp_AA), (2, emp_BB), (5, emp_CC)] ''BB'')
             \<and> search_loop mem' hd' ''BB'' = Some None)"
    by blast
  then have r1: "find_record (removeEmployee [emp_AA, emp_BB, emp_CC] ''BB'') ''BB'' = None
        \<and> removeEmployee [emp_AA, emp_BB, emp_CC] ''BB'' = [emp_AA, emp_CC]
        \<and> (\<exists>mem' hd'. removeEmployee_mem (mem_ABC, Some 1) ''BB'' = Some (mem', hd')
             \<and> chain mem' hd' [(1, emp_AA), (5, emp_CC)]
             \<and> search_loop mem' hd' ''BB'' = Some None)"
    unfolding append.simps w .
  from removeEmployee_then_find [of "[emp_AA, emp_BB, emp_CC]" "''DD''"] n
  have r2: "removeEmployee [emp_AA, emp_BB, emp_CC] ''DD'' = [emp_AA, emp_BB, emp_CC]"
    by blast
  from r1 r2 d n c dn w show ?thesis by blast
qed

text \<open>
  Claim C1. For an event whose UID the search does not find and whose enroll prompt is
  answered with an input equal to "y" up to case: when \<open>malloc\<close> fails, \<open>addEmployee\<close>
  leaves the chain as it was and only prints its diagnostic, the task leaves the chain
  unchanged and sets \<open>Remote_Door\<close>; and whatever \<open>malloc\<close> returns, the task completes
  the event with \<open>Remote_Door\<close> set.
\<close>

theorem enroll_sets_Remote_Door:
  assumes "find_record (head g) (AccessData.uid ev) = None"
    and "wait_input con = Some (input, con', n)"
    and "equalsIgnoreCase input ''y''"
  shows "addEmployee (head g) (AccessData.uid ev) (AccessData.time ev) False
           = (head g, [Serial_println ''Memory allocation failed!''])
       \<and> (\<exists>g'. checkID_event g con ev False = Done g' con' \<and> head g' = head g \<and> Remote_Door g')
       \<and> (\<exists>g'. checkID_event g con ev malloc_ok = Done g' con' \<and> Remote_Door g')"
  using assms
  by (simp add: find_record_def checkID_event_def checkID_branches_def checkID_unknown_def addEmployee_def emit_def Let_def)

theorem enroll_sets_Remote_Door_witness:
  "find_record (head globals_init) (AccessData.uid event_new) = None
   \<and> wait_input [None, Some '' '', Some ''Y''] = Some (''Y'', [], 3)
   \<and> equalsIgnoreCase ''Y'' ''y''
   \<and> (\<exists>g'. checkID_event globals_init [None, Some '' '', Some ''Y''] event_new False = Done g' []
            \<and> head g' = [] \<and> Remote_Door g')"
proof -
  have h1: "find_record (head globals_init) (AccessData.uid event_new) = None"
    by (simp add: globals_init_def find_record_def)
  have h2: "wait_input [None, Some '' '', Some ''Y''] = Some (''Y'', [], 3)"
    by code_simp
  have h3: "equalsIgnoreCase ''Y'' ''y''"
    by code_simp
  from enroll_sets_Remote_Door [OF h1 h2 h3] h1 h2 h3 show ?thesis
    by (simp add: globals_init_def)
qed

text \<open>
  Claim C10. For an event whose UID the search finds at a record that is entering (so
  that the toggle makes it exiting), \<open>Remote_Door\<close> after the event is what it was before,
  whatever the console gives at the remove prompt, and also when the prompt is never
  answered.
\<close>

theorem exiting_keeps_Remote_Door:
  assumes "find_record (head g) (AccessData.uid ev) = Some r" and "isEntering r"
  shows "Remote_Door (state_of (checkID_event g con ev malloc_ok)) = Remote_Door g"
  using assms
  by (auto simp: find_record_def checkID_event_def checkID_branches_def checkID_known_exiting_flag)

theorem exiting_keeps_Remote_Door_witness:
  "find_record (head (globals_init\<lparr>head := [emp_BB, emp_AA]\<rparr>)) (AccessData.uid event_AA) = Some emp_AA
   \<and> isEntering emp_AA
   \<and> Remote_Door (state_of (checkID_event (globals_init\<lparr>head := [emp_BB, emp_AA]\<rparr>) [Some ''y''] event_AA True))
       = False"
proof -
  have h1: "find_record (head (globals_init\<lparr>head := [emp_BB, emp_AA]\<rparr>)) (AccessData.uid event_AA) = Some emp_AA"
    by (simp add: find_record_def emp_AA_def emp_BB_def event_AA_def)
  have h2: "isEntering emp_AA"
    by (simp add: emp_AA_def)
  from exiting_keeps_Remote_Door [OF h1 h2, of "[Some ''y'']" True] h1 h2 show ?thesis
    by (simp add: globals_init_def)
qed

text \<open>
  Claim C5. Starting from the empty registry, after any sequence of events, console
  inputs and allocation outcomes, no two records of the chain have the same UID; and an
  event makes the chain longer only when the search for its UID found nothing.
\<close>

theorem registry_uids_distinct:
  "distinct (map Employee.uid (head (state_of (checkID globals_init con evs))))
   \<and> (length (head g) < length (head (state_of (checkID_event g con' ev m)))
        \<longrightarrow> find_uid (head g) (AccessData.uid ev) = None)"
  using checkID_distinct [of globals_init con evs] checkID_event_grows [of g con' ev m]
  by (simp add: globals_init_def)

theorem registry_uids_distinct_witness:
  "map Employee.uid (head (state_of (checkID globals_init [Some ''y'', None, Some ''n'', Some ''Y'']
       [(event_new, True), (event_new, True), (event_AA, True), (event_AA, True)])))
     = [''AA'', ''AA:BB:CC'']
   \<and> distinct (map Employee.uid (head (state_of (checkID globals_init [Some ''y'', None, Some ''n'', Some ''Y'']
       [(event_new, True), (event_new, True), (event_AA, True), (event_AA, True)]))))
   \<and> length (head globals_init) < length (head (state_of (checkID_event globals_init [Some ''y''] event_new True)))
   \<and> find_uid (head globals_init) (AccessData.uid event_new) = None"
proof -
  have a: "map Employee.uid (head (state_of (checkID globals_init [Some ''y'', None, Some ''n'', Some ''Y'']
       [(event_new, True), (event_new, True), (event_AA, True), (event_AA, True)])))
     = [''AA'', ''AA:BB:CC'']"
    by code_simp
  have b: "length (head globals_init) < length (head (state_of (checkID_event globals_init [Some ''y''] event_new True)))"
    by code_simp
  from registry_uids_distinct [of "[Some ''y'', None, Some ''n'', Some ''Y'']"
       "[(event_new, True), (event_new, True), (event_AA, True), (event_AA, True)]"
       globals_init "[Some ''y'']" event_new True] a b
  show ?thesis by blast
qed

text \<open>
  Claim C8. On a registry with one record per UID, take two events of the same UID \<open>u\<close>
  handled one after the other, the record of \<open>u\<close> being found before the first (\<open>r0\<close>),
  between them (\<open>r1\<close>) and after the second (\<open>r2\<close>). Then \<open>isEntering\<close> is flipped by the
  first and back to its original value by the second; the event that makes the record
  exiting sets \<open>exitTime\<close> to its own time and the other one leaves \<open>exitTime\<close> as it is;
  and an event of any other UID leaves the record of \<open>u\<close> as it is.
\<close>

theorem two_resolutions_toggle:
  assumes d: "distinct (map Employee.uid (head g0))"
    and f0: "find_record (head g0) u = Some r0"
    and g1: "g1 = state_of (checkID_event g0 con0 \<lparr>AccessData.uid = u, time = t1\<rparr> m1)"
    and f1: "find_record (head g1) u = Some r1"
    and g2: "g2 = state_of (checkID_event g1 con1 \<lparr>AccessData.uid = u, time = t2\<rparr> m2)"
    and f2: "find_record (head g2) u = Some r2"
  shows "isEntering r1 = (\<not> isEntering r0) \<and> isEntering r2 = isEntering r0
       \<and> (if isEntering r0 then exitTime r1 = t1 \<and> exitTime r2 = t1
          else exitTime r1 = exitTime r0 \<and> exitTime r2 = t2)
       \<and> (\<forall>ev. AccessData.uid ev \<noteq> u \<longrightarrow>
             find_record (head (state_of (checkID_event g con ev m))) u = find_record (head g) u)"
proof -
  have d1: "distinct (map Employee.uid (head g1))"
    unfolding g1 using d by (rule checkID_event_distinct)
  have r1: "r1 = (if isEntering r0 then r0\<lparr>isEntering := False, exitTime := t1\<rparr>
                  else r0\<lparr>isEntering := True, entryTime := t1\<rparr>)"
    using checkID_event_same_uid [of g0 "\<lparr>AccessData.uid = u, time = t1\<rparr>" r0 con0 m1 r1] d f0 f1
    by (simp add: g1)
  have r2: "r2 = (if isEntering r1 then r1\<lparr>isEntering := False, exitTime := t2\<rparr>
                  else r1\<lparr>isEntering := True, entryTime := t2\<rparr>)"
    using checkID_event_same_uid [of g1 "\<lparr>AccessData.uid = u, time = t2\<rparr>" r1 con1 m2 r2] d1 f1 f2
    by (simp add: g2)
  from r1 r2 show ?thesis
    by (simp add: checkID_event_other_uid)
qed

theorem two_resolutions_toggle_witness:
  "distinct (map Employee.uid (head (globals_init\<lparr>head := [emp_BB, emp_AA]\<rparr>)))
   \<and> find_record (head (globals_init\<lparr>head := [emp_BB, emp_AA]\<rparr>)) ''AA'' = Some emp_AA
   \<and> find_record (head (state_of (checkID_event (globals_init\<lparr>head := [emp_BB, emp_AA]\<rparr>)
          [Some ''n''] \<lparr>AccessData.uid = ''AA'', time = ''17:30:00''\<rparr> True))) ''AA''
       = Some (emp_AA\<lparr>isEntering := False, exitTime := ''17:30:00''\<rparr>)
   \<and> find_record (head (state_of (checkID_event
          (state_of (checkID_event (globals_init\<lparr>head := [emp_BB, emp_AA]\<rparr>)
             [Some ''n''] \<lparr>AccessData.uid = ''AA'', time = ''17:30:00''\<rparr> True))
          [] \<lparr>AccessData.uid = ''AA'', time = ''08:00:00''\<rparr> True))) ''AA''
       = Some (emp_AA\<lparr>isEntering := True, exitTime := ''17:30:00'', entryTime := ''08:00:00''\<rparr>)
   \<and> isEntering emp_AA
   \<and> AccessData.uid \<lparr>AccessData.uid = ''BB'', time = ''12:00:00''\<rparr> \<noteq> ''AA''
   \<and> find_record (head (state_of (checkID_event (globals_init\<lparr>head := [emp_BB, emp_AA]\<rparr>)
          [] \<lparr>AccessData.uid = ''BB'', time = ''12:00:00''\<rparr> True))) ''AA''
       = Some emp_AA"
proof -
  let ?g0 = "globals_init\<lparr>head := [emp_BB, emp_AA]\<rparr>"
  let ?g1 = "state_of (checkID_event ?g0 [Some ''n''] \<lparr>AccessData.uid = ''AA'', time = ''17:30:00''\<rparr> True)"
  let ?g2 = "state_of (checkID_event ?g1 [] \<lparr>AccessData.uid = ''AA'', time = ''08:00:00''\<rparr> True)"
  have d: "distinct (map Employee.uid (head ?g0))"
    by (simp add: emp_AA_def emp_BB_def)
  have f0: "find_record (head ?g0) ''AA'' = Some emp_AA"
    by (simp add: find_record_def emp_AA_def emp_BB_def)
  have f1: "find_record (head ?g1) ''AA'' = Some (emp_AA\<lparr>isEntering := False, exitTime := ''17:30:00''\<rparr>)"
    by code_simp
  have f2: "find_record (head ?g2) ''AA''
      = Some (emp_AA\<lparr>isEntering := True, exitTime := ''17:30:00'', entryTime := ''08:00:00''\<rparr>)"
    by code_simp
  have e: "isEntering emp_AA"
    by (simp add: emp_AA_def)
  have n: "AccessData.uid \<lparr>AccessData.uid = ''BB'', time = ''12:00:00''\<rparr> \<noteq> ''AA''"
    by simp
  from two_resolutions_toggle [OF d f0 refl f1 refl f2, of ?g0 "[]" True] n f0
  have "find_record (head (state_of (checkID_event ?g0 [] \<lparr>AccessData.uid = ''BB'', time = ''12:00:00''\<rparr> True))) ''AA''
      = Some emp_AA"
    by metis
  with d f0 f1 f2 e n show ?thesis by blast
qed

section \<open>The elapsed time\<close>

lemma digit_char_of_char: "d < 10 \<Longrightarrow> (of_char (char_of (48 + d :: nat)) :: nat) = 48 + d"
  by (simp add: of_char_of)

lemma isdigit_digit: "d < 10 \<Longrightarrow> isdigit (char_of (48 + d :: nat))"
  by (simp add: isdigit_def of_char_of)

lemma isspace_digit: "isdigit c \<Longrightarrow> \<not> isspace c"
  by (auto simp: isdigit_def isspace_def Let_def)

lemma digit_value: "d < 10 \<Longrightarrow> (of_char (char_of (48 + d :: nat)) :: int) - 48 = int d"
proof -
  assume d: "d < 10"
  have "(of_char (char_of (48 + d)) :: int) = int (of_char (char_of (48 + d)))"
    by (simp only: of_nat_of_char)
  with d show ?thesis
    by (simp add: of_char_of)
qed

lemma scan_digits_show_nat:
  "scan_digits acc (show_nat n @ r) = scan_digits (acc * 10 ^ length (show_nat n) + int n) r"
proof (induction n arbitrary: acc r rule: show_nat.induct)
  case (1 n)
  show ?case
  proof (cases "n < 10")
    case True
    then show ?thesis
      by (simp add: show_nat.simps [of n] isdigit_digit digit_value)
  next
    case False
    have d: "n mod 10 < 10" by simp
    have "scan_digits acc (show_nat n @ r)
        = scan_digits acc (show_nat (n div 10) @ (char_of (48 + n mod 10) # r))"
      using False by (simp add: show_nat.simps [of n])
    also have "\<dots> = scan_digits (acc * 10 ^ length (show_nat (n div 10)) + int (n div 10))
                        (char_of (48 + n mod 10) # r)"
      by (rule "1.IH" [OF False])
    also have "\<dots> = scan_digits ((acc * 10 ^ length (show_nat (n div 10)) + int (n div 10)) * 10
                         + int (n mod 10)) r"
      using d by (simp add: isdigit_digit digit_value)
    also have "(acc * 10 ^ length (show_nat (n div 10)) + int (n div 10)) * 10 + int (n mod 10)
        = acc * 10 ^ length (show_nat n) + int n"
      using False by (simp add: show_nat.simps [of n] algebra_simps zdiv_int zmod_int)
    finally show ?thesis .
  qed
qed

lemma show_nat_digits: "\<forall>c \<in> set (show_nat n). isdigit c"
proof (induction n rule: show_nat.induct)
  case (1 n)
  show ?case
  proof (cases "n < 10")
    case True
    then show ?thesis by (simp add: show_nat.simps [of n] isdigit_digit)
  next
    case False
    with "1.IH" show ?thesis
      by (simp add: show_nat.simps [of n] isdigit_digit)
  qed
qed

lemma show_nat_not_Nil: "show_nat n \<noteq> []"
  by (simp add: show_nat.simps [of n])

lemma isdigit_zero: "isdigit (CHR ''0'')"
  by (simp add: isdigit_def)

lemma fmt_02d_Cons: "\<exists>c cs. fmt_02d n = c # cs \<and> isdigit c"
proof (cases "n < 10")
  case True
  then show ?thesis by (simp add: fmt_02d_def isdigit_zero)
next
  case False
  obtain c cs where c: "show_nat n = c # cs"
    using show_nat_not_Nil [of n] by (cases "show_nat n") auto
  with show_nat_digits [of n] have "isdigit c" by simp
  with c False show ?thesis by (simp add: fmt_02d_def)
qed

lemma scan_digits_stop: "r = [] \<or> \<not> isdigit (hd r) \<Longrightarrow> scan_digits v r = (v, r)"
  by (cases r) auto

lemma scan_digits_fmt_02d:
  "r = [] \<or> \<not> isdigit (hd r) \<Longrightarrow> scan_digits 0 (fmt_02d n @ r) = (int n, r)"
  by (simp add: fmt_02d_def scan_digits_show_nat scan_digits_stop isdigit_zero)

lemma scan_d_fmt_02d:
  assumes "r = [] \<or> \<not> isdigit (hd r)"
  shows "scan_d (fmt_02d n @ r) = Some (int n, r)"
proof -
  obtain c cs where c: "fmt_02d n = c # cs" and d: "isdigit c"
    using fmt_02d_Cons [of n] by blast
  have ns: "\<not> isspace c" using d by (rule isspace_digit)
  have nm: "c \<noteq> CHR ''-''" "c \<noteq> CHR ''+''"
    using d by (auto simp: isdigit_def)
  have "scan_d (fmt_02d n @ r) = scan_unsigned (fmt_02d n @ r)"
    using ns nm by (simp add: scan_d_def c)
  also have "\<dots> = Some (scan_digits 0 (fmt_02d n @ r))"
    using d by (simp add: scan_unsigned_def c)
  finally show ?thesis
    using assms by (simp add: scan_digits_fmt_02d)
qed

lemma colon_not_digit: "\<not> isdigit (CHR '':'')"
  by (simp add: isdigit_def)

lemma sscanf_hms_sender_time:
  "sscanf_hms (sender_time h m s) = [int (unat h), int (unat m), int (unat s)]"
proof -
  have 1: "scan_d (fmt_02d (unat h) @ CHR '':'' # fmt_02d (unat m) @ CHR '':'' # fmt_02d (unat s))
      = Some (int (unat h), CHR '':'' # fmt_02d (unat m) @ CHR '':'' # fmt_02d (unat s))"
    by (rule scan_d_fmt_02d) (simp add: colon_not_digit)
  have 2: "scan_d (fmt_02d (unat m) @ CHR '':'' # fmt_02d (unat s))
      = Some (int (unat m), CHR '':'' # fmt_02d (unat s))"
    by (rule scan_d_fmt_02d) (simp add: colon_not_digit)
  have 3: "scan_d (fmt_02d (unat s)) = Some (int (unat s), [])"
    using scan_d_fmt_02d [of "[]" "unat s"] by simp
  show ?thesis
    by (simp add: sscanf_hms_def sender_time_def 1 2 3)
qed

lemma uint8_bound: "0 \<le> uint (w :: 8 word) \<and> uint w < 256"
  using uint_lt2p [of w] by simp

lemma hms_difference_range:
  fixes a b c d e f :: int
  assumes "0 \<le> a \<and> a < 256" "0 \<le> b \<and> b < 256" "0 \<le> c \<and> c < 256"
    and "0 \<le> d \<and> d < 256" "0 \<le> e \<and> e < 256" "0 \<le> f \<and> f < 256"
  shows "- 2147483648 \<le> (a * 3600 + b * 60 + c) - (d * 3600 + e * 60 + f)
       \<and> (a * 3600 + b * 60 + c) - (d * 3600 + e * 60 + f) < 2147483648"
  using assms by arith

text \<open>
  Claim C9. For every entry and exit time the scanning node can send, \<open>calculateTotalTime\<close>
  returns exactly (exit hours * 3600 + exit minutes * 60 + exit seconds) minus the same
  sum for the entry, with no wrap-around; the result is negative exactly when the exit
  time is the smaller one. Entry "09:00:00" with exit "09:00:30" gives 30, entry
  "10:00:00" with exit "11:30:15" gives 5415, and entry "23:59:50" with exit "00:00:10"
  gives -86380.
\<close>

theorem calculateTotalTime_exact:
  "map_option sint (calculateTotalTime (sender_time h1 m1 s1) (sender_time h2 m2 s2))
     = Some ((uint h2 * 3600 + uint m2 * 60 + uint s2) - (uint h1 * 3600 + uint m1 * 60 + uint s1))
   \<and> map_option (\<lambda>total. sint total < 0)
        (calculateTotalTime (sender_time h1 m1 s1) (sender_time h2 m2 s2))
     = Some (uint h2 * 3600 + uint m2 * 60 + uint s2 < uint h1 * 3600 + uint m1 * 60 + uint s1)
   \<and> calculateTotalTime ''09:00:00'' ''09:00:30'' = Some 30
   \<and> calculateTotalTime ''10:00:00'' ''11:30:15'' = Some 5415
   \<and> map_option sint (calculateTotalTime ''23:59:50'' ''00:00:10'') = Some (- 86380)"
proof (intro conjI)
  let ?d = "(uint h2 * 3600 + uint m2 * 60 + uint s2) - (uint h1 * 3600 + uint m1 * 60 + uint s1)"
  have c: "calculateTotalTime (sender_time h1 m1 s1) (sender_time h2 m2 s2)
      = Some (word_of_int ?d)"
    by (simp add: calculateTotalTime_def sscanf_hms_sender_time)
  have r: "- 2147483648 \<le> ?d \<and> ?d < 2147483648"
    by (rule hms_difference_range) (rule uint8_bound)+
  have e: "sint (word_of_int ?d :: 32 word) = ?d"
    using r by (simp only: sint_sbintrunc' signed_take_bit_int_eq_self_iff) simp
  from c e
  show "map_option sint (calculateTotalTime (sender_time h1 m1 s1) (sender_time h2 m2 s2)) = Some ?d"
    by simp
  from c e
  show "map_option (\<lambda>total. sint total < 0)
          (calculateTotalTime (sender_time h1 m1 s1) (sender_time h2 m2 s2))
        = Some (uint h2 * 3600 + uint m2 * 60 + uint s2 < uint h1 * 3600 + uint m1 * 60 + uint s1)"
    by simp
  show "calculateTotalTime ''09:00:00'' ''09:00:30'' = Some 30"
    by (simp add: calculateTotalTime_def sscanf_hms_def scan_d_def scan_unsigned_def
          isdigit_def isspace_def)
  show "calculateTotalTime ''10:00:00'' ''11:30:15'' = Some 5415"
    by (simp add: calculateTotalTime_def sscanf_hms_def scan_d_def scan_unsigned_def
          isdigit_def isspace_def)
  show "map_option sint (calculateTotalTime ''23:59:50'' ''00:00:10'') = Some (- 86380)"
    by (simp add: calculateTotalTime_def sscanf_hms_def scan_d_def scan_unsigned_def
          isdigit_def isspace_def)
qed

theorem calculateTotalTime_exact_witness:
  "sender_time 23 59 50 = ''23:59:50'' \<and> sender_time 0 0 10 = ''00:00:10''
   \<and> map_option sint (calculateTotalTime (sender_time 23 59 50) (sender_time 0 0 10))
       = Some (- 86380)
   \<and> map_option (\<lambda>total. sint total < 0) (calculateTotalTime (sender_time 23 59 50) (sender_time 0 0 10))
       = Some True"
proof -
  have a: "sender_time 23 59 50 = ''23:59:50'' \<and> sender_time 0 0 10 = ''00:00:10''"
    by code_simp
  from calculateTotalTime_exact [of 23 59 50 0 0 10] a show ?thesis
    by simp
qed

section \<open>The door controller\<close>

text \<open>The steps of the identification task, run with nothing in between, are
  \<open>checkID_event\<close>.\<close>

lemma ident_steps_are_checkID_event:
  assumes "ident s = At_xQueueReceive"
  shows "(case checkID_branches (shared s) con ev m of
            At_assignment g con' \<Rightarrow> run s [Ident_receive con ev m, Ident_stmt, Ident_stmt]
          | After_branch g con' \<Rightarrow> run s [Ident_receive con ev m, Ident_stmt]
          | In_input_loop g \<Rightarrow> run s [Ident_receive con ev m])
         = Some (s\<lparr>ident := (case checkID_event (shared s) con ev m of
                                Done g con' \<Rightarrow> At_xQueueReceive | Stalled g \<Rightarrow> At_input_loop),
                   shared := state_of (checkID_event (shared s) con ev m)\<rparr>)"
  using assms
  by (cases "checkID_branches (shared s) con ev m") (simp_all add: checkID_event_def)

text \<open>The iteration run on its own is the five statements one after the other.\<close>

lemma iter_is_five_stmts:
  "Task_DoorController_iter pin cs g =
    Option.bind (Task_DoorController_stmt pin (\<lparr>pc = At_digitalRead, buttonState = b0, currentState = cs\<rparr>, g)) (\<lambda>s1.
    Option.bind (Task_DoorController_stmt pin s1) (\<lambda>s2.
    Option.bind (Task_DoorController_stmt pin s2) (\<lambda>s3.
    Option.bind (Task_DoorController_stmt pin s3) (\<lambda>s4.
    Option.bind (Task_DoorController_stmt pin s4) (\<lambda>(t, g'). Some (currentState t, g'))))))"
  by (auto simp: Task_DoorController_iter_def Let_def emit_def split: prod.splits option.splits)

text \<open>
  Claim C4. In every iteration of the controller: from \<open>CLOSE\<close> the new state is \<open>OPEN\<close>
  exactly when the button reads \<open>LOW\<close> or \<open>Remote_Door\<close> is set, and \<open>CLOSE\<close> otherwise;
  from \<open>OPEN\<close> it is \<open>CLOSE\<close> exactly when the button reads \<open>LOW\<close>, and \<open>OPEN\<close>
  otherwise, whatever \<open>Remote_Door\<close> is; from any other value it is \<open>CLOSE\<close>. That new
  state is the state the controller holds, and has pushed, when the iteration completes.
\<close>

theorem door_transitions:
  "(cs = CLOSE \<longrightarrow>
      fst (Task_DoorController_branch pin cs g) = (if pin = LOW \<or> Remote_Door g then OPEN else CLOSE))
   \<and> (cs = OPEN \<longrightarrow>
      fst (Task_DoorController_branch pin cs g) = (if pin = LOW then CLOSE else OPEN))
   \<and> (cs \<noteq> CLOSE \<and> cs \<noteq> OPEN \<longrightarrow> fst (Task_DoorController_branch pin cs g) = CLOSE)
   \<and> (\<forall>cs' g'. Task_DoorController_iter pin cs g = Some (cs', g') \<longrightarrow>
         cs' = fst (Task_DoorController_branch pin cs g) \<and> DoorQueue g' = [cs'])"
  by (auto simp: Task_DoorController_iter_def Task_DoorController_branch_def xQueueSend_def
        DoorQueue_length_def emit_def OPEN_def CLOSE_def Let_def split: option.splits if_splits)

theorem door_transitions_witness:
  "fst (Task_DoorController_branch HIGH CLOSE (globals_init\<lparr>Remote_Door := True\<rparr>)) = OPEN
   \<and> fst (Task_DoorController_branch LOW CLOSE globals_init) = OPEN
   \<and> fst (Task_DoorController_branch HIGH CLOSE globals_init) = CLOSE
   \<and> fst (Task_DoorController_branch HIGH OPEN (globals_init\<lparr>Remote_Door := True\<rparr>)) = OPEN
   \<and> fst (Task_DoorController_branch LOW OPEN globals_init) = CLOSE
   \<and> fst (Task_DoorController_branch HIGH 7 globals_init) = CLOSE
   \<and> Task_DoorController_iter HIGH CLOSE (globals_init\<lparr>Remote_Door := True\<rparr>)
       = Some (OPEN, globals_init\<lparr>DoorQueue := [OPEN],
                                  out := [Serial0_println ''Door: Open'', vTaskDelay 300]\<rparr>)
   \<and> (7 :: DoorState) \<noteq> CLOSE \<and> 7 \<noteq> OPEN \<and> HIGH \<noteq> LOW
   \<and> Remote_Door (globals_init\<lparr>Remote_Door := True\<rparr>) \<and> \<not> Remote_Door globals_init"
proof -
  have e: "(7 :: DoorState) \<noteq> CLOSE \<and> 7 \<noteq> OPEN \<and> HIGH \<noteq> LOW
      \<and> Remote_Door (globals_init\<lparr>Remote_Door := True\<rparr>) \<and> \<not> Remote_Door globals_init"
    by (simp add: CLOSE_def OPEN_def HIGH_def LOW_def globals_init_def)
  have i: "Task_DoorController_iter HIGH CLOSE (globals_init\<lparr>Remote_Door := True\<rparr>)
       = Some (OPEN, globals_init\<lparr>DoorQueue := [OPEN],
                                  out := [Serial0_println ''Door: Open'', vTaskDelay 300]\<rparr>)"
    by code_simp
  from door_transitions [of CLOSE HIGH "globals_init\<lparr>Remote_Door := True\<rparr>"] e
  have a: "fst (Task_DoorController_branch HIGH CLOSE (globals_init\<lparr>Remote_Door := True\<rparr>)) = OPEN"
    by simp
  from door_transitions [of CLOSE LOW globals_init]
  have b: "fst (Task_DoorController_branch LOW CLOSE globals_init) = OPEN"
    by simp
  from door_transitions [of CLOSE HIGH globals_init] e
  have c: "fst (Task_DoorController_branch HIGH CLOSE globals_init) = CLOSE"
    by simp
  from door_transitions [of OPEN HIGH "globals_init\<lparr>Remote_Door := True\<rparr>"] e
  have d: "fst (Task_DoorController_branch HIGH OPEN (globals_init\<lparr>Remote_Door := True\<rparr>)) = OPEN"
    by simp
  from door_transitions [of OPEN LOW globals_init]
  have f: "fst (Task_DoorController_branch LOW OPEN globals_init) = CLOSE"
    by simp
  from door_transitions [of 7 HIGH globals_init] e
  have g: "fst (Task_DoorController_branch HIGH 7 globals_init) = CLOSE"
    by simp
  from a b c d f g i e show ?thesis by blast
qed

text \<open>
  Claim C2, evaluated on the two schedules. When the identification task sets
  \<open>Remote_Door\<close> after the controller has tested the flag in an iteration and before the
  controller clears it in the same iteration, the record is enrolled but the controller
  stays in \<open>CLOSE\<close> in the next iteration and the servo is never driven to 180; when the
  same event is handled between two iterations, the next iteration goes to \<open>OPEN\<close>.
\<close>

theorem Remote_Door_set_lost:
  "observe (run system_init lost_set_schedule)
     = Some (CLOSE, False, [''AA:BB:CC''], [0, 0, 0])
   \<and> observe (run system_init seen_set_schedule)
     = Some (OPEN, False, [''AA:BB:CC''], [0, 0, 180])"
  by code_simp

end
